theory Spec2Isabelle
  imports Main "HOL-Library.Sublist"
begin

section \<open>Strings of the content script\<close>

text \<open>
  A JavaScript string is a sequence of UTF-16 code units. The model takes the code units
  below 256 (ASCII and Latin-1), one \<^typ>\<open>char\<close> each, so a page text is a
  \<^typ>\<open>string\<close>. Every character that a pattern or a keyword of the script can
  consume is in this range, apart from the Unicode spaces above U+00FF that \<open>\s\<close> and
  \<open>trim\<close> also accept.
\<close>

definition isUpperAscii :: "char \<Rightarrow> bool" where
  "isUpperAscii c = (65 \<le> (of_char c :: nat) \<and> (of_char c :: nat) \<le> 90)"

definition isLowerAscii :: "char \<Rightarrow> bool" where
  "isLowerAscii c = (97 \<le> (of_char c :: nat) \<and> (of_char c :: nat) \<le> 122)"

definition isDigit :: "char \<Rightarrow> bool" where
  "isDigit c = (48 \<le> (of_char c :: nat) \<and> (of_char c :: nat) \<le> 57)"

text \<open>\<open>String.prototype.toLowerCase\<close>, one code unit at a time: \<open>A-Z\<close> and the Latin-1
  capitals U+00C0..U+00DE (without the multiplication sign U+00D7) move up by 32.\<close>

definition lowerChar :: "char \<Rightarrow> char" where
  "lowerChar c =
     (let n = (of_char c :: nat)
      in if (65 \<le> n \<and> n \<le> 90) \<or> (192 \<le> n \<and> n \<le> 222 \<and> n \<noteq> 215)
         then char_of (n + 32) else c)"

definition toLowerCase :: "string \<Rightarrow> string" where
  "toLowerCase s = map lowerChar s"

text \<open>The white space of ECMAScript (\<open>\s\<close> in a pattern, and what \<open>trim\<close> strips), in the
  Latin-1 range: TAB, LF, VT, FF, CR, SPACE and NBSP.\<close>

definition isWhiteSpace :: "char \<Rightarrow> bool" where
  "isWhiteSpace c =
     (let n = (of_char c :: nat) in (9 \<le> n \<and> n \<le> 13) \<or> n = 32 \<or> n = 160)"

definition trim :: "string \<Rightarrow> string" where
  "trim s = rev (dropWhile isWhiteSpace (rev (dropWhile isWhiteSpace s)))"

text \<open>\<open>Array.prototype.join\<close>.\<close>

fun join :: "string \<Rightarrow> string list \<Rightarrow> string" where
  "join sep [] = []"
| "join sep [x] = x"
| "join sep (x # y # ys) = x @ sep @ join sep (y # ys)"

text \<open>\<open>String.prototype.indexOf\<close> and \<open>String.prototype.includes\<close>: the first position at
  which the needle is a prefix of the rest, scanning from the left.\<close>

fun indexOf_from :: "nat \<Rightarrow> string \<Rightarrow> string \<Rightarrow> nat option" where
  "indexOf_from i [] k = (if k = [] then Some i else None)"
| "indexOf_from i (x # xs) k =
     (if prefix k (x # xs) then Some i else indexOf_from (Suc i) xs k)"

definition indexOf :: "string \<Rightarrow> string \<Rightarrow> nat option" where
  "indexOf s k = indexOf_from 0 s k"

definition str_includes :: "string \<Rightarrow> string \<Rightarrow> bool" where
  "str_includes s k = (indexOf s k \<noteq> None)"

text \<open>\<open>[...new Set(xs)]\<close>: a \<open>Set\<close> keeps its elements in the order of their first insertion,
  and inserting an element that is already there changes nothing.\<close>

definition set_add :: "'a list \<Rightarrow> 'a \<Rightarrow> 'a list" where
  "set_add acc x = (if x \<in> set acc then acc else acc @ [x])"

definition new_Set :: "'a list \<Rightarrow> 'a list" where
  "new_Set xs = foldl set_add [] xs"


section \<open>The regular expressions of the script\<close>

text \<open>
  The patterns of \<open>content.js\<close> are built from literals, the classes \<open>\s\<close> and \<open>[a-z\s]\<close>,
  the assertion \<open>\b\<close>, sequence, alternation, optional groups \<open>(?:r)?\<close>, and the quantifiers
  \<open>+\<close> and \<open>{m,n}\<close> applied to a class. All carry the flag \<open>i\<close> and none carries \<open>g\<close> or
  \<open>y\<close>, so \<open>test\<close> and \<open>match\<close> start at index 0 and keep no state between calls.
\<close>

datatype cset = Space | LowerOrSpace

datatype rx =
    Eps
  | Lit string
  | WordB
  | Seq rx rx
  | Alt rx rx
  | Opt rx
  | Rep cset nat "nat option"

text \<open>A position in the text: the characters before it, last one first, and the
  characters from it on.\<close>

type_synonym pos = "string \<times> string"

text \<open>Canonicalize of the specification of \<open>RegExp\<close> under the flag \<open>i\<close> (without \<open>u\<close>):
  the upper-case form, and a character outside ASCII is never mapped into ASCII. No
  pattern character of the script is outside ASCII, so on the other characters the
  identity gives the same comparisons.\<close>

definition canonicalize :: "char \<Rightarrow> char" where
  "canonicalize c = (if isLowerAscii c then char_of ((of_char c :: nat) - 32) else c)"

definition isWordChar :: "char \<Rightarrow> bool" where
  "isWordChar c = (isLowerAscii c \<or> isUpperAscii c \<or> isDigit c \<or> c = CHR ''_'')"

fun in_cset :: "cset \<Rightarrow> char \<Rightarrow> bool" where
  "in_cset Space c = isWhiteSpace c"
| "in_cset LowerOrSpace c = (isUpperAscii (canonicalize c) \<or> isWhiteSpace c)"

text \<open>\<open>\b\<close>: exactly one of the two neighbours is a word character; outside the text
  there is none.\<close>

fun wordb :: "pos \<Rightarrow> bool" where
  "wordb (b, a) =
     ((case b of [] \<Rightarrow> False | c # _ \<Rightarrow> isWordChar c) \<noteq>
      (case a of [] \<Rightarrow> False | c # _ \<Rightarrow> isWordChar c))"

fun lit_match :: "string \<Rightarrow> string \<Rightarrow> string \<Rightarrow> pos option" where
  "lit_match [] b a = Some (b, a)"
| "lit_match (c # cs) b [] = None"
| "lit_match (c # cs) b (x # xs) =
     (if canonicalize c = canonicalize x then lit_match cs (x # b) xs else None)"

text \<open>The greedy quantifier on a class, as RepeatMatcher runs it: with \<open>lo\<close> repetitions
  still owed and at most \<open>hi\<close> allowed, take one more character if possible and continue;
  on backtracking, stop here if nothing is owed. The result lists where the quantifier
  can end, in the order backtracking tries them.\<close>

fun rep :: "cset \<Rightarrow> nat \<Rightarrow> nat option \<Rightarrow> string \<Rightarrow> string \<Rightarrow> pos list" where
  "rep cs lo hi b [] = (if lo = 0 then [(b, [])] else [])"
| "rep cs lo hi b (x # xs) =
     (if in_cset cs x \<and> hi \<noteq> Some 0
      then rep cs (lo - 1) (map_option (\<lambda>h. h - 1) hi) (x # b) xs
      else []) @ (if lo = 0 then [(b, x # xs)] else [])"

text \<open>All the positions at which a match of the pattern that starts at the given
  position can end, in the order in which the backtracking matcher reaches them.\<close>

fun ends :: "rx \<Rightarrow> pos \<Rightarrow> pos list" where
  "ends Eps p = [p]"
| "ends (Lit s) p = (case lit_match s (fst p) (snd p) of None \<Rightarrow> [] | Some q \<Rightarrow> [q])"
| "ends WordB p = (if wordb p then [p] else [])"
| "ends (Seq r1 r2) p = concat (map (ends r2) (ends r1 p))"
| "ends (Alt r1 r2) p = ends r1 p @ ends r2 p"
| "ends (Opt r) p = ends r p @ [p]"
| "ends (Rep cs lo hi) p = rep cs lo hi (fst p) (snd p)"

text \<open>\<open>RegExp.prototype.exec\<close> from index 0: the leftmost start at which the pattern
  matches, with the end that backtracking finds first.\<close>

fun exec_from :: "rx \<Rightarrow> string \<Rightarrow> string \<Rightarrow> (pos \<times> pos) option" where
  "exec_from r b [] = (case ends r (b, []) of [] \<Rightarrow> None | q # _ \<Rightarrow> Some ((b, []), q))"
| "exec_from r b (x # xs) =
     (case ends r (b, x # xs) of [] \<Rightarrow> exec_from r (x # b) xs | q # _ \<Rightarrow> Some ((b, x # xs), q))"

definition rx_exec :: "rx \<Rightarrow> string \<Rightarrow> (pos \<times> pos) option" where
  "rx_exec r text = exec_from r [] text"

text \<open>\<open>p.test(text)\<close>.\<close>

definition rx_test :: "rx \<Rightarrow> string \<Rightarrow> bool" where
  "rx_test r text = (rx_exec r text \<noteq> None)"

text \<open>\<open>text.match(p)\<close>, reduced to its element 0, the matched substring
  (\<open>None\<close> is JavaScript's \<open>null\<close>).\<close>

definition rx_match :: "rx \<Rightarrow> string \<Rightarrow> string option" where
  "rx_match r text =
     (case rx_exec r text of
        None \<Rightarrow> None
      | Some (s, e) \<Rightarrow> Some (take (length (snd s) - length (snd e)) (snd s)))"

subsection \<open>Building blocks of the pattern lists\<close>

fun seqs :: "rx list \<Rightarrow> rx" where
  "seqs [] = Eps"
| "seqs [r] = r"
| "seqs (r # rs) = Seq r (seqs rs)"

text \<open>\<open>\s+\<close>\<close>

definition ws :: rx where
  "ws = Rep Space 1 None"

text \<open>\<open>(?:visa\s+)?\<close>\<close>

definition visa_opt :: rx where
  "visa_opt = Opt (Seq (Lit ''visa'') ws)"

text \<open>\<open>(?:us|u\.?s\.?)\<close>\<close>

definition us :: rx where
  "us = Alt (Lit ''us'') (seqs [Lit ''u'', Opt (Lit ''.''), Lit ''s'', Opt (Lit ''.'')])"

text \<open>\<open>(?:a\s+)?\<close>\<close>

definition a_opt :: rx where
  "a_opt = Opt (Seq (Lit ''a'') ws)"

text \<open>\<open>(?:we\s+)?\<close>\<close>

definition we_opt :: rx where
  "we_opt = Opt (Seq (Lit ''we'') ws)"

definition RESTRICTION_PATTERNS :: "rx list" where
  "RESTRICTION_PATTERNS =
   [ seqs [WordB, Lit ''no'', ws, visa_opt, Lit ''sponsorship'', WordB],
     seqs [WordB, visa_opt, Lit ''sponsorship'', ws, Lit ''not'', ws,
           Alt (Lit ''available'') (Alt (Lit ''provided'') (Alt (Lit ''offered'') (Lit ''supported''))),
           WordB],
     seqs [WordB, we_opt, Alt (Lit ''do'') (Alt (Lit ''does'') (Lit ''will'')), ws,
           Lit ''not'', ws, Lit ''sponsor'', WordB],
     seqs [WordB, Alt (Lit ''cannot'') (seqs [Lit ''unable'', ws, Lit ''to'']), ws,
           Lit ''sponsor'', WordB],
     seqs [WordB, Alt (Lit ''do'') (Lit ''does''), ws, Lit ''not'', ws, Lit ''provide'', ws,
           Lit ''sponsorship'', WordB],
     seqs [WordB, Lit ''not'', ws, Lit ''eligible'', ws, Lit ''for'', ws,
           Lit ''sponsorship'', WordB],
     seqs [WordB, Lit ''no'', ws,
           Alt (seqs [Lit ''h'', Opt (Lit ''-''), Lit ''1b'']) (Alt (Lit ''h1b'') (Lit ''visa'')),
           ws, Lit ''sponsor''],
     seqs [WordB, we_opt, Alt (Lit ''do'') (Lit ''does''), ws, Lit ''not'', ws,
           Lit ''sponsor'', ws, Lit ''visas'', WordB],
     seqs [WordB, us, ws, Lit ''citizenship'', ws, Lit ''required'', WordB],
     seqs [WordB, Lit ''must'', ws, Lit ''be'', ws, a_opt, us, ws, Lit ''citizen'', WordB],
     seqs [WordB, us, ws, Lit ''citizen'', Opt (Lit ''s''), ws, Lit ''only'', WordB],
     seqs [WordB, Lit ''only'', ws, us, ws, Lit ''citizen'', Opt (Lit ''s''), ws,
           Opt (Seq (Lit ''are'') ws), Lit ''eligible'', WordB],
     seqs [WordB, Lit ''green'', ws, Lit ''card'', ws, Lit ''holder'', Opt (Lit ''s''), ws,
           Lit ''only'', WordB],
     seqs [WordB, Opt (seqs [Lit ''citizen'', ws, Lit ''or'', ws]), Lit ''permanent'', ws,
           Lit ''resident'', ws, Lit ''only'', WordB],
     seqs [WordB, us, ws, Lit ''permanent'', ws, Lit ''resident'', ws, Lit ''only'', WordB],
     seqs [WordB, Lit ''authorized'', ws, Lit ''to'', ws, Lit ''work'', ws, Lit ''without'',
           ws, Lit ''sponsorship'', WordB],
     seqs [WordB, Lit ''proof'', ws, Lit ''of'', ws,
           Opt (seqs [Lit ''country'', ws, Lit ''of'', ws]), Lit ''citizenship'', WordB],
     seqs [WordB, Lit ''citizenship'', ws, Lit ''verification'', WordB],
     seqs [WordB, Lit ''applicant'', Opt (Lit ''s''), ws, Lit ''must'', ws, Lit ''be'', ws,
           a_opt, us, ws, Lit ''citizen''],
     seqs [WordB, Lit ''international'', ws, Lit ''traffic'', ws, Lit ''in'', ws,
           Lit ''arms'', ws, Lit ''regulations'', WordB],
     seqs [WordB, Lit ''export'', ws, Lit ''administration'', ws, Lit ''regulations'', WordB]
   ]"

definition EXCLUSION_PATTERNS :: "rx list" where
  "EXCLUSION_PATTERNS =
   [ seqs [WordB, Lit ''no'', ws, Rep LowerOrSpace 0 (Some 25),
           Alt (Lit ''citizenship'') (Lit ''citizen''), ws, Lit ''required'', WordB],
     seqs [WordB, Alt (Lit ''citizenship'') (Lit ''citizen''), ws, Lit ''not'', ws,
           Lit ''required'', WordB],
     seqs [WordB, Alt (Lit ''no'') (Lit ''not''), ws, Rep LowerOrSpace 0 (Some 30), visa_opt,
           Lit ''sponsorship'', ws, Alt (Lit ''required'') (Lit ''needed''), WordB],
     seqs [WordB, visa_opt, Lit ''sponsorship'', ws, Lit ''not'', ws,
           Alt (Lit ''required'') (Lit ''needed''), WordB],
     seqs [WordB, Alt (Lit ''do'') (Lit ''does''), ws, Lit ''not'', ws, Lit ''require'', ws,
           visa_opt, Lit ''sponsorship'', WordB],
     seqs [WordB, Lit ''with'', ws, Lit ''or'', ws, Lit ''without'', ws, visa_opt,
           Lit ''sponsorship'', WordB],
     seqs [WordB, visa_opt, Lit ''sponsorship'', ws, Opt (Seq (Lit ''is'') ws),
           Lit ''available'', WordB]
   ]"


section \<open>The restriction matcher\<close>

text \<open>The loop of \<open>scanForRestrictions\<close> over the restriction patterns: each pattern that
  matches pushes its matched substring, lower-cased.\<close>

fun collect_matches :: "rx list \<Rightarrow> string \<Rightarrow> string list \<Rightarrow> string list" where
  "collect_matches [] text matches = matches"
| "collect_matches (pattern # ps) text matches =
     (case rx_match pattern text of
        None \<Rightarrow> collect_matches ps text matches
      | Some m0 \<Rightarrow> collect_matches ps text (matches @ [toLowerCase m0]))"

text \<open>\<open>scanForRestrictions\<close> with the two pattern lists as parameters.\<close>

definition scan :: "rx list \<Rightarrow> rx list \<Rightarrow> string \<Rightarrow> string list" where
  "scan exclusions restrictions text =
     (if text = [] then []
      else if list_ex (\<lambda>p. rx_test p text) exclusions then []
      else new_Set (collect_matches restrictions text []))"

definition scanForRestrictions :: "string \<Rightarrow> string list" where
  "scanForRestrictions text = scan EXCLUSION_PATTERNS RESTRICTION_PATTERNS text"


subsection \<open>The keyword variant\<close>

text \<open>The second copy of \<open>content.js\<close> in the repository has no patterns: its
  \<open>scanForRestrictions\<close> tests plain containment of each keyword in the lower-cased text.\<close>

definition RESTRICTION_KEYWORDS :: "string list" where
  "RESTRICTION_KEYWORDS =
   [ ''no sponsorship'',
     ''does not provide sponsorship'',
     ''without visa sponsorship'',
     ''must be a citizen'',
     ''us citizen only'',
     ''u.s. citizen only'',
     ''u.s. citizenship is required'',
     ''us citizenship is required'',
     ''only u.s. citizens are eligible'',
     ''only us citizens are eligible'',
     ''gc holders only'',
     ''no visa support'',
     ''not eligible for sponsorship'',
     ''authorized to work without sponsorship'',
     ''we do not sponsor visas'',
     ''sponsorship is not available'',
     ''no h1b sponsorship'',
     ''no h-1b sponsorship'',
     ''does not sponsor'',
     ''will not sponsor'',
     ''cannot sponsor'',
     ''unable to sponsor'',
     ''sponsorship not provided'',
     ''no work authorization support'',
     ''no visa sponsorship'',
     ''citizen or permanent resident only'',
     ''us permanent resident only'',
     ''green card holders only'',
     ''no sponsorship available'',
     ''sponsorship unavailable''
   ]"

fun collect_keywords :: "string list \<Rightarrow> string \<Rightarrow> string list \<Rightarrow> string list" where
  "collect_keywords [] lower matches = matches"
| "collect_keywords (keyword # ks) lower matches =
     (if str_includes lower keyword then collect_keywords ks lower (matches @ [keyword])
      else collect_keywords ks lower matches)"

definition scanForRestrictions_kw :: "string \<Rightarrow> string list" where
  "scanForRestrictions_kw text =
     (if text = [] then []
      else new_Set (collect_keywords RESTRICTION_KEYWORDS (toLowerCase text) []))"


section \<open>The text extractor\<close>

text \<open>
  What \<open>getPageText\<close> reads of the document: whether there is a body, its \<open>innerText\<close>,
  and its text nodes in document order (the order of the \<open>TreeWalker\<close>), each with the
  tag name of its parent element, if it has one, and its \<open>textContent\<close>.
\<close>

record text_node =
  parentElement :: "string option"
  textContent :: string

record body =
  innerText :: string
  textNodes :: "text_node list"

definition acceptNode :: "text_node \<Rightarrow> bool" where
  "acceptNode node =
     (case parentElement node of
        None \<Rightarrow> False
      | Some tagName \<Rightarrow> toLowerCase tagName \<notin> set [''script'', ''style'', ''noscript''])"

text \<open>The \<open>while\<close> loop over \<open>walker.nextNode()\<close>: rejected nodes are not visited.\<close>

fun walk_chunks :: "text_node list \<Rightarrow> string list \<Rightarrow> string list" where
  "walk_chunks [] chunks = chunks"
| "walk_chunks (node # rest) chunks =
     (if acceptNode node
      then (let t = trim (textContent node)
            in if t \<noteq> [] \<and> length t > 5 then walk_chunks rest (chunks @ [t])
               else walk_chunks rest chunks)
      else walk_chunks rest chunks)"

definition getPageText :: "body option \<Rightarrow> string" where
  "getPageText doc =
     (case doc of
        None \<Rightarrow> []
      | Some b \<Rightarrow>
          (let inner = innerText b
           in if inner \<noteq> [] \<and> length inner > 50 then toLowerCase inner
              else toLowerCase (join '' '' (walk_chunks (textNodes b) []))))"


section \<open>The scheduler\<close>

definition SCAN_DEBOUNCE_MS :: nat where
  "SCAN_DEBOUNCE_MS = 500"

definition STORAGE_KEY_ENABLED :: string where
  "STORAGE_KEY_ENABLED = ''visaDetectorEnabled''"

definition STORAGE_KEY_HIGHLIGHT :: string where
  "STORAGE_KEY_HIGHLIGHT = ''visaDetectorHighlight''"

text \<open>
  The script's variables (\<open>scanTimeout\<close>, \<open>lastScannedText\<close>, \<open>isExtensionEnabled\<close>,
  \<open>highlightMatches\<close>, and \<open>lastUrl\<close> of \<open>init\<close>), together with what it reads and writes
  outside: the document, \<open>location.href\<close>, the banner element, the highlight spans, the
  clock in milliseconds, the pending timers of the window, and a record of the calls made
  to the extractor, the matcher and the presenters, in order.
\<close>

datatype callback = PerformScan | DebouncedScan | UrlPoll

record timer =
  handle :: nat
  due :: nat
  callback :: callback
  period :: "nat option"

datatype item = Phrase string | More nat

record banner =
  items :: "item list"
  visible :: bool

datatype call =
    CallPerformScan
  | CallGetPageText
  | CallScanForRestrictions string
  | CallShowBanner "string list"
  | CallRemoveBanner
  | CallHighlightMatchedText "string list"
  | CallRemoveHighlights

record world =
  scanTimeout :: "nat option"
  lastScannedText :: string
  isExtensionEnabled :: bool
  highlightMatches :: bool
  lastUrl :: string
  document :: "body option"
  href :: string
  bannerElement :: "banner option"
  highlights :: "string list"
  now :: nat
  timers :: "timer list"
  next_handle :: nat
  calls :: "call list"

definition log_call :: "call \<Rightarrow> world \<Rightarrow> world" where
  "log_call c w = w\<lparr>calls := calls w @ [c]\<rparr>"

subsection \<open>Presenters\<close>

definition removeHighlights :: "world \<Rightarrow> world" where
  "removeHighlights w = (log_call CallRemoveHighlights w)\<lparr>highlights := []\<rparr>"

definition removeBanner :: "world \<Rightarrow> world" where
  "removeBanner w =
     (let w1 = log_call CallRemoveBanner w;
          w2 = (case bannerElement w1 of
                  None \<Rightarrow> w1
                | Some b \<Rightarrow> w1\<lparr>bannerElement := Some (b\<lparr>visible := False\<rparr>)\<rparr>)
      in removeHighlights w2)"

text \<open>\<open>showBanner\<close> creates the banner when there is none, replaces its list by the first
  five phrases and a \<open>+N more\<close> entry, and makes it visible. Its \<open>appendChild\<close> on
  \<open>document.body\<close> is reached from \<open>performScan\<close> only with a non-empty page text,
  hence with a body.\<close>

definition showBanner :: "string list \<Rightarrow> world \<Rightarrow> world" where
  "showBanner matchedPhrases w =
     (let w1 = log_call (CallShowBanner matchedPhrases) w;
          b = (case bannerElement w1 of None \<Rightarrow> \<lparr>items = [], visible = False\<rparr> | Some b \<Rightarrow> b);
          list = (if length matchedPhrases > 0
                  then map Phrase (take 5 matchedPhrases) @
                       (if length matchedPhrases > 5 then [More (length matchedPhrases - 5)] else [])
                  else [])
      in w1\<lparr>bannerElement := Some (b\<lparr>items := list, visible := True\<rparr>)\<rparr>)"

text \<open>The loop of \<open>highlightMatchedText\<close>: the first accepted text node whose lower-cased
  content contains the keyword gets the span, over \<open>content.slice(idx, endOffset)\<close>. The
  range lies within one text node, so \<open>surroundContents\<close> does not throw. The function is
  called from \<open>performScan\<close> with a non-empty list of matches only, hence with a body;
  without a body the model leaves the highlights removed.\<close>

fun find_highlight :: "text_node list \<Rightarrow> string \<Rightarrow> string option" where
  "find_highlight [] keyword = None"
| "find_highlight (node # rest) keyword =
     (if acceptNode node
      then (let content = textContent node
            in case indexOf (toLowerCase content) keyword of
                 None \<Rightarrow> find_highlight rest keyword
               | Some idx \<Rightarrow>
                   (let endOffset = min (idx + length keyword) (length content)
                    in Some (take (endOffset - idx) (drop idx content))))
      else find_highlight rest keyword)"

definition highlightMatchedText :: "string list \<Rightarrow> world \<Rightarrow> world" where
  "highlightMatchedText matches w =
     (let w1 = removeHighlights (log_call (CallHighlightMatchedText matches) w)
      in case matches of
           [] \<Rightarrow> w1
         | keyword # _ \<Rightarrow>
             (case document w1 of
                None \<Rightarrow> w1
              | Some b \<Rightarrow>
                  (case find_highlight (textNodes b) keyword of
                     None \<Rightarrow> w1
                   | Some span \<Rightarrow> w1\<lparr>highlights := [span]\<rparr>)))"

subsection \<open>Scanning\<close>

definition performScan :: "world \<Rightarrow> world" where
  "performScan w0 =
     (let w = log_call CallPerformScan w0
      in if \<not> isExtensionEnabled w then removeBanner w
         else
           (let text = getPageText (document w);
                w1 = log_call CallGetPageText w
            in if text = lastScannedText w1 then w1
               else
                 (let w2 = w1\<lparr>lastScannedText := text\<rparr>;
                      matches = scanForRestrictions text;
                      w3 = log_call (CallScanForRestrictions text) w2
                  in if length matches > 0
                     then (let w4 = showBanner matches w3
                           in if highlightMatches w4 then highlightMatchedText matches w4
                              else w4)
                     else removeBanner w3)))"

subsection \<open>Timers\<close>

text \<open>\<open>setTimeout\<close> and \<open>setInterval\<close> return a fresh handle, a positive integer;
  \<open>clearTimeout\<close> forgets the timer with the given handle, if it is still pending.\<close>

definition setTimeout :: "callback \<Rightarrow> nat \<Rightarrow> world \<Rightarrow> nat \<times> world" where
  "setTimeout cb delay w =
     (let h = Suc (next_handle w)
      in (h, w\<lparr>timers := timers w @ [\<lparr>handle = h, due = now w + delay, callback = cb, period = None\<rparr>],
               next_handle := h\<rparr>))"

definition setInterval :: "callback \<Rightarrow> nat \<Rightarrow> world \<Rightarrow> nat \<times> world" where
  "setInterval cb delay w =
     (let h = Suc (next_handle w)
      in (h, w\<lparr>timers := timers w @ [\<lparr>handle = h, due = now w + delay, callback = cb, period = Some delay\<rparr>],
               next_handle := h\<rparr>))"

definition clearTimeout :: "nat \<Rightarrow> world \<Rightarrow> world" where
  "clearTimeout h w = w\<lparr>timers := filter (\<lambda>t. handle t \<noteq> h) (timers w)\<rparr>"

definition debouncedScan :: "world \<Rightarrow> world" where
  "debouncedScan w =
     (let w1 = (case scanTimeout w of
                  None \<Rightarrow> w
                | Some h \<Rightarrow> if h \<noteq> 0 then clearTimeout h w else w);
          (h, w2) = setTimeout PerformScan SCAN_DEBOUNCE_MS w1
      in w2\<lparr>scanTimeout := Some h\<rparr>)"

subsection \<open>Triggers\<close>

datatype mutation_type = ChildList | CharacterData | Attributes

record mutation =
  mtype :: mutation_type
  addedNodes :: nat

definition hasRelevantChange :: "mutation list \<Rightarrow> bool" where
  "hasRelevantChange mutations =
     list_ex (\<lambda>m. if mtype m = ChildList \<and> addedNodes m > 0 then True
                  else if mtype m = CharacterData then True
                  else False) mutations"

definition onMutations :: "mutation list \<Rightarrow> world \<Rightarrow> world" where
  "onMutations mutations w = (if hasRelevantChange mutations then debouncedScan w else w)"

text \<open>\<open>loadSettings\<close>: the stored values as the popup writes them (a boolean, or nothing),
  or no result when the read fails.\<close>

definition loadSettings :: "(bool option \<times> bool option) option \<Rightarrow> world \<Rightarrow> world" where
  "loadSettings result w =
     (case result of
        None \<Rightarrow> w\<lparr>isExtensionEnabled := True, highlightMatches := False\<rparr>
      | Some (e, h) \<Rightarrow> w\<lparr>isExtensionEnabled := (e \<noteq> Some False), highlightMatches := (h = Some True)\<rparr>)"

text \<open>\<open>onStorageChange\<close>: \<open>changes\<close> maps each changed key to its \<open>newValue\<close>.\<close>

definition onStorageChange :: "(string \<rightharpoonup> bool option) \<Rightarrow> string \<Rightarrow> world \<Rightarrow> world" where
  "onStorageChange changes area w =
     (if area \<noteq> ''sync'' \<and> area \<noteq> ''local'' then w
      else
        (let w1 = (case changes STORAGE_KEY_ENABLED of
                     None \<Rightarrow> w
                   | Some newValue \<Rightarrow>
                       (let w' = w\<lparr>isExtensionEnabled := (newValue \<noteq> Some False)\<rparr>
                        in if \<not> isExtensionEnabled w' then removeBanner w' else debouncedScan w'))
         in case changes STORAGE_KEY_HIGHLIGHT of
              None \<Rightarrow> w1
            | Some newValue \<Rightarrow>
                (let w' = w1\<lparr>highlightMatches := (newValue = Some True)\<rparr>
                 in if highlightMatches w' then debouncedScan w' else removeHighlights w')))"

definition onPopstate :: "world \<Rightarrow> world" where
  "onPopstate w = debouncedScan (w\<lparr>lastScannedText := []\<rparr>)"

definition onUrlPoll :: "world \<Rightarrow> world" where
  "onUrlPoll w =
     (if href w \<noteq> lastUrl w
      then debouncedScan (w\<lparr>lastUrl := href w, lastScannedText := []\<rparr>)
      else w)"

definition init :: "(bool option \<times> bool option) option \<Rightarrow> world \<Rightarrow> world" where
  "init result w =
     (let w1 = loadSettings result w;
          w2 = debouncedScan w1;
          (h1, w3) = setTimeout DebouncedScan 2000 w2;
          (h2, w4) = setTimeout DebouncedScan 5000 w3;
          w5 = w4\<lparr>lastUrl := href w4\<rparr>;
          (h3, w6) = setInterval UrlPoll 1500 w5
      in w6)"

subsection \<open>The event loop\<close>

definition run_callback :: "callback \<Rightarrow> world \<Rightarrow> world" where
  "run_callback cb w =
     (case cb of
        PerformScan \<Rightarrow> performScan w
      | DebouncedScan \<Rightarrow> debouncedScan w
      | UrlPoll \<Rightarrow> onUrlPoll w)"

text \<open>The pending timer that is due first; among timers due together, the one set first.\<close>

fun earliest :: "timer list \<Rightarrow> timer option" where
  "earliest [] = None"
| "earliest (t # ts) =
     (case earliest ts of
        None \<Rightarrow> Some t
      | Some u \<Rightarrow> if due u < due t then Some u else Some t)"

text \<open>Firing the next timer: the clock moves to its due time, a timeout is forgotten and
  an interval is set again, and the callback runs.\<close>

definition fire :: "world \<Rightarrow> world option" where
  "fire w =
     (case earliest (timers w) of
        None \<Rightarrow> None
      | Some t \<Rightarrow>
          (let time = max (now w) (due t);
               others = filter (\<lambda>u. handle u \<noteq> handle t) (timers w);
               again = (case period t of None \<Rightarrow> [] | Some p \<Rightarrow> [t\<lparr>due := time + p\<rparr>])
           in Some (run_callback (callback t) (w\<lparr>now := time, timers := others @ again\<rparr>))))"

datatype event =
    Mutations "mutation list"
  | Popstate
  | StorageChange "string \<rightharpoonup> bool option" string
  | SetDocument "body option"
  | SetHref string

definition handle_event :: "event \<Rightarrow> world \<Rightarrow> world" where
  "handle_event ev w =
     (case ev of
        Mutations ms \<Rightarrow> onMutations ms w
      | Popstate \<Rightarrow> onPopstate w
      | StorageChange changes area \<Rightarrow> onStorageChange changes area w
      | SetDocument d \<Rightarrow> w\<lparr>document := d\<rparr>
      | SetHref u \<Rightarrow> w\<lparr>href := u\<rparr>)"

text \<open>A run is a list of actions: \<open>Fire\<close> runs the next pending timer, \<open>At t ev\<close> delivers
  an event at time \<open>t\<close>. An event cannot be delivered in the past, nor while a timer that
  was due before \<open>t\<close> is still pending; then the run is not a run of the script (\<open>None\<close>).\<close>

datatype action = Fire | At nat event

fun step :: "action \<Rightarrow> world \<Rightarrow> world option" where
  "step Fire w = fire w"
| "step (At t ev) w =
     (if t < now w \<or> list_ex (\<lambda>u. due u < t) (timers w) then None
      else Some (handle_event ev (w\<lparr>now := t\<rparr>)))"

fun exec :: "action list \<Rightarrow> world \<Rightarrow> world option" where
  "exec [] w = Some w"
| "exec (a # as) w = (case step a w of None \<Rightarrow> None | Some w' \<Rightarrow> exec as w')"



section \<open>Notions used to state the properties\<close>

text \<open>The position of the first occurrence of an element in a list (the length of the
  list when there is none).\<close>

definition first_index :: "'a list \<Rightarrow> 'a \<Rightarrow> nat" where
  "first_index xs x = length (takeWhile (\<lambda>y. y \<noteq> x) xs)"

text \<open>The phrases matched by the restriction matchers, one for each matcher that matches,
  in the order of the matchers in the list.\<close>

definition matched_phrases :: "string \<Rightarrow> string list" where
  "matched_phrases text =
     map toLowerCase (List.map_filter (\<lambda>p. rx_match p text) RESTRICTION_PATTERNS)"

text \<open>Position \<open>q\<close> is position \<open>p\<close> of the same text moved forward.\<close>

definition ahead :: "pos \<Rightarrow> pos \<Rightarrow> bool" where
  "ahead p q = (\<exists>m. snd p = m @ snd q \<and> fst q = rev m @ fst p)"

text \<open>A pattern that begins with \<open>\b\<close>, and one that ends with it.\<close>

fun opens :: "rx \<Rightarrow> bool" where
  "opens WordB = True"
| "opens (Seq r1 r2) = opens r1"
| "opens _ = False"

fun closes :: "rx \<Rightarrow> bool" where
  "closes WordB = True"
| "closes (Seq r1 r2) = closes r2"
| "closes _ = False"

text \<open>The fragments that the fallback of the extractor keeps, said at once: of the text
  nodes with an accepted parent, the trimmed contents longer than five characters.\<close>

definition surviving_fragments :: "text_node list \<Rightarrow> string list" where
  "surviving_fragments nodes =
     filter (\<lambda>t. 5 < length t) (map (\<lambda>n. trim (textContent n)) (filter acceptNode nodes))"

definition banner_visible :: "world \<Rightarrow> bool" where
  "banner_visible w = (case bannerElement w of None \<Rightarrow> False | Some b \<Rightarrow> visible b)"


definition pending_scans :: "world \<Rightarrow> timer list" where
  "pending_scans w = filter (\<lambda>u. callback u = PerformScan) (timers w)"

text \<open>What \<open>setTimeout\<close> and \<open>debouncedScan\<close> maintain: the handles of the pending timers
  are positive, different from each other and not beyond the last one given out, and
  a pending timer is a scan exactly when \<open>scanTimeout\<close> holds its handle.\<close>

definition tracked :: "world \<Rightarrow> bool" where
  "tracked w =
     ((\<forall>u \<in> set (timers w). 0 < handle u \<and> handle u \<le> next_handle w) \<and>
      distinct (map handle (timers w)) \<and>
      (\<forall>u \<in> set (timers w). callback u = PerformScan \<longleftrightarrow> scanTimeout w = Some (handle u)))"



text \<open>The script as it is loaded, before \<open>init\<close>, on a page with the given document and
  address: the initial values of its variables, no banner, no timer.\<close>

definition initial_world :: "body option \<Rightarrow> string \<Rightarrow> world" where
  "initial_world doc url =
     \<lparr>scanTimeout = None, lastScannedText = [], isExtensionEnabled = True,
      highlightMatches = False, lastUrl = [], document = doc, href = url,
      bannerElement = None, highlights = [], now = 0, timers = [], next_handle = 0,
      calls = []\<rparr>"



definition scan_timer :: "world \<Rightarrow> timer" where
  "scan_timer w = \<lparr>handle = Suc (next_handle w), due = now w + SCAN_DEBOUNCE_MS,
                   callback = PerformScan, period = None\<rparr>"

subsection \<open>Example pages, worlds and bursts\<close>

text \<open>A page whose text is \<open>no visa sponsorship\<close>, the script after it has scanned this
  page and shown the banner, and a burst of three triggers.\<close>

definition visa_page :: "body option" where
  "visa_page =
     Some \<lparr>innerText = [],
           textNodes = [\<lparr>parentElement = Some ''P'', textContent = ''No visa sponsorship''\<rparr>]\<rparr>"

definition flagged_world :: world where
  "flagged_world =
     (initial_world visa_page ''https://jobs.example/1'')
       \<lparr>lastScannedText := ''no visa sponsorship'',
        lastUrl := ''https://jobs.example/1'',
        bannerElement := Some \<lparr>items = [Phrase ''no visa sponsorship'', Phrase ''no visa sponsor''],
                               visible = True\<rparr>\<rparr>"



section \<open>Characters, bit by bit\<close>

text \<open>The character functions on a character given by its eight bits: these equations
  are what the evaluations below compute with.\<close>

lemma isUpperAscii_Char:
  "isUpperAscii (Char b0 b1 b2 b3 b4 b5 b6 b7) =
     (\<not> b7 \<and> b6 \<and> \<not> b5 \<and> (b0 \<or> b1 \<or> b2 \<or> b3 \<or> b4) \<and> \<not> (b4 \<and> b3 \<and> (b2 \<or> (b1 \<and> b0))))"
  by (cases b0; cases b1; cases b2; cases b3; cases b4; cases b5; cases b6; cases b7;
      simp add: isUpperAscii_def)

lemma isLowerAscii_Char:
  "isLowerAscii (Char b0 b1 b2 b3 b4 b5 b6 b7) =
     (\<not> b7 \<and> b6 \<and> b5 \<and> (b0 \<or> b1 \<or> b2 \<or> b3 \<or> b4) \<and> \<not> (b4 \<and> b3 \<and> (b2 \<or> (b1 \<and> b0))))"
  by (cases b0; cases b1; cases b2; cases b3; cases b4; cases b5; cases b6; cases b7;
      simp add: isLowerAscii_def)

lemma isDigit_Char:
  "isDigit (Char b0 b1 b2 b3 b4 b5 b6 b7) =
     (\<not> b7 \<and> \<not> b6 \<and> b5 \<and> b4 \<and> \<not> (b3 \<and> (b2 \<or> b1)))"
  by (cases b0; cases b1; cases b2; cases b3; cases b4; cases b5; cases b6; cases b7;
      simp add: isDigit_def)

lemma isWhiteSpace_Char:
  "isWhiteSpace (Char b0 b1 b2 b3 b4 b5 b6 b7) =
     ((\<not> b7 \<and> \<not> b6 \<and> \<not> b5 \<and> \<not> b4 \<and> b3 \<and> (b0 \<or> b1 \<or> b2) \<and> \<not> (b2 \<and> b1)) \<or>
      (\<not> b6 \<and> b5 \<and> \<not> b4 \<and> \<not> b3 \<and> \<not> b2 \<and> \<not> b1 \<and> \<not> b0))"
  by (cases b0; cases b1; cases b2; cases b3; cases b4; cases b5; cases b6; cases b7;
      simp add: isWhiteSpace_def)

lemma isWordChar_Char:
  "isWordChar (Char b0 b1 b2 b3 b4 b5 b6 b7) =
     (isLowerAscii (Char b0 b1 b2 b3 b4 b5 b6 b7) \<or> isUpperAscii (Char b0 b1 b2 b3 b4 b5 b6 b7) \<or>
      isDigit (Char b0 b1 b2 b3 b4 b5 b6 b7) \<or>
      (b0 \<and> b1 \<and> b2 \<and> b3 \<and> b4 \<and> \<not> b5 \<and> b6 \<and> \<not> b7))"
  by (auto simp add: isWordChar_def)

lemma canonicalize_Char:
  "canonicalize (Char b0 b1 b2 b3 b4 b5 b6 b7) =
     (if isLowerAscii (Char b0 b1 b2 b3 b4 b5 b6 b7)
      then Char b0 b1 b2 b3 b4 False b6 b7 else Char b0 b1 b2 b3 b4 b5 b6 b7)"
  by (cases b0; cases b1; cases b2; cases b3; cases b4; cases b5; cases b6; cases b7;
      simp add: canonicalize_def isLowerAscii_def char_of_def bit_Suc_0_iff)

lemma lowerChar_Char:
  "lowerChar (Char b0 b1 b2 b3 b4 b5 b6 b7) =
     (if isUpperAscii (Char b0 b1 b2 b3 b4 b5 b6 b7) \<or>
         (b7 \<and> b6 \<and> \<not> b5 \<and> \<not> (b0 \<and> b1 \<and> b2 \<and> b4))
      then Char b0 b1 b2 b3 b4 True b6 b7 else Char b0 b1 b2 b3 b4 b5 b6 b7)"
  by (cases b0; cases b1; cases b2; cases b3; cases b4; cases b5; cases b6; cases b7;
      simp add: lowerChar_def isUpperAscii_def char_of_def bit_Suc_0_iff)

lemmas chr_ev =
  isUpperAscii_Char isLowerAscii_Char isDigit_Char isWhiteSpace_Char isWordChar_Char
  canonicalize_Char lowerChar_Char

lemmas rx_ev =
  rx_test_def rx_exec_def rx_match_def ws_def us_def visa_opt_def a_opt_def we_opt_def

lemmas scan_ev =
  scanForRestrictions_def scan_def RESTRICTION_PATTERNS_def EXCLUSION_PATTERNS_def
  new_Set_def set_add_def toLowerCase_def


section \<open>Strings and sets\<close>

lemma lowerChar_idem: "lowerChar (lowerChar c) = lowerChar c"
proof (cases c)
  case (Char b0 b1 b2 b3 b4 b5 b6 b7)
  show ?thesis unfolding Char
    by (cases b0; cases b1; cases b2; cases b3; cases b4; cases b5; cases b6; cases b7;
        simp add: chr_ev)
qed

lemma toLowerCase_idem: "toLowerCase (toLowerCase s) = toLowerCase s"
  by (simp add: toLowerCase_def lowerChar_idem)

lemma toLowerCase_append: "toLowerCase (u @ v) = toLowerCase u @ toLowerCase v"
  by (simp add: toLowerCase_def)

lemma sublist_toLowerCase:
  assumes "sublist m s"
  shows "sublist (toLowerCase m) (toLowerCase s)"
proof -
  from assms obtain ps ss where "s = ps @ m @ ss"
    by (auto simp: sublist_def)
  then have "toLowerCase s = toLowerCase ps @ toLowerCase m @ toLowerCase ss"
    by (simp add: toLowerCase_append)
  then show ?thesis
    unfolding sublist_def by blast
qed

lemma set_foldl_set_add: "set (foldl set_add acc xs) = set acc \<union> set xs"
  by (induction xs arbitrary: acc) (auto simp: set_add_def)

lemma distinct_foldl_set_add: "distinct acc \<Longrightarrow> distinct (foldl set_add acc xs)"
  by (induction xs arbitrary: acc) (auto simp: set_add_def)

lemma set_new_Set: "set (new_Set xs) = set xs"
  by (simp add: new_Set_def set_foldl_set_add)

lemma distinct_new_Set: "distinct (new_Set xs)"
  by (simp add: new_Set_def distinct_foldl_set_add)

lemma foldl_set_add_filter:
  "foldl set_add acc xs = acc @ foldl set_add [] (filter (\<lambda>x. x \<notin> set acc) xs)"
proof (induction "length xs" arbitrary: xs acc rule: less_induct)
  case less
  show ?case
  proof (cases xs)
    case Nil
    then show ?thesis by simp
  next
    case (Cons x ys)
    show ?thesis
    proof (cases "x \<in> set acc")
      case True
      have "foldl set_add acc ys = acc @ foldl set_add [] (filter (\<lambda>x. x \<notin> set acc) ys)"
        by (rule less) (simp add: Cons)
      then show ?thesis using True Cons by (simp add: set_add_def)
    next
      case False
      let ?zs = "filter (\<lambda>y. y \<notin> set acc) ys"
      have f: "filter (\<lambda>y. y \<notin> set (acc @ [x])) ys = filter (\<lambda>y. y \<notin> set [x]) ?zs"
        by (induction ys) auto
      have "foldl set_add acc xs = foldl set_add (acc @ [x]) ys"
        using False Cons by (simp add: set_add_def)
      also have "\<dots> = (acc @ [x]) @ foldl set_add [] (filter (\<lambda>y. y \<notin> set (acc @ [x])) ys)"
        by (rule less) (simp add: Cons)
      also have "\<dots> = acc @ ([x] @ foldl set_add [] (filter (\<lambda>y. y \<notin> set [x]) ?zs))"
        by (simp only: f append_assoc)
      also have "[x] @ foldl set_add [] (filter (\<lambda>y. y \<notin> set [x]) ?zs) = foldl set_add [x] ?zs"
        by (rule less [symmetric]) (simp add: Cons less_Suc_eq_le)
      also have "foldl set_add [x] ?zs = foldl set_add [] (filter (\<lambda>y. y \<notin> set acc) xs)"
        using False Cons by (simp add: set_add_def)
      finally show ?thesis .
    qed
  qed
qed

lemma new_Set_Cons: "new_Set (x # xs) = x # new_Set (filter (\<lambda>y. y \<noteq> x) xs)"
proof -
  have "new_Set (x # xs) = foldl set_add [x] xs"
    by (simp add: new_Set_def set_add_def)
  also have "\<dots> = [x] @ foldl set_add [] (filter (\<lambda>y. y \<notin> set [x]) xs)"
    by (rule foldl_set_add_filter)
  finally show ?thesis by (simp add: new_Set_def)
qed

lemma new_Set_Nil: "new_Set [] = []"
  by (simp add: new_Set_def)

lemma first_index_Cons:
  "first_index (x # xs) a = (if a = x then 0 else Suc (first_index xs a))"
  by (simp add: first_index_def)

lemma first_index_filter:
  "a \<noteq> x \<Longrightarrow> b \<noteq> x \<Longrightarrow> a \<in> set xs \<Longrightarrow>
   first_index (filter (\<lambda>y. y \<noteq> x) xs) a < first_index (filter (\<lambda>y. y \<noteq> x) xs) b \<Longrightarrow>
   first_index xs a < first_index xs b"
proof (induction xs)
  case Nil
  then show ?case by simp
next
  case (Cons y ys)
  show ?case
  proof (cases "y = x")
    case True
    then have "a \<in> set ys" using Cons.prems by auto
    then show ?thesis using Cons True by (simp add: first_index_Cons)
  next
    case False
    show ?thesis
    proof (cases "a = y")
      case True
      then show ?thesis using Cons.prems False by (simp add: first_index_Cons split: if_splits)
    next
      case ay: False
      then have "a \<in> set ys" using Cons.prems by auto
      then show ?thesis using Cons False ay by (simp add: first_index_Cons split: if_splits)
    qed
  qed
qed

lemma new_Set_first_index:
  "sorted_wrt (\<lambda>a b. first_index xs a < first_index xs b) (new_Set xs)"
proof (induction "length xs" arbitrary: xs rule: less_induct)
  case less
  show ?case
  proof (cases xs)
    case Nil
    then show ?thesis by (simp add: new_Set_Nil)
  next
    case (Cons x ys)
    let ?zs = "filter (\<lambda>y. y \<noteq> x) ys"
    have len: "length ?zs < length xs" using Cons by (simp add: less_Suc_eq_le)
    have IH: "sorted_wrt (\<lambda>a b. first_index ?zs a < first_index ?zs b) (new_Set ?zs)"
      using less [OF len] .
    have mem: "a \<noteq> x \<and> a \<in> set ys" if "a \<in> set (new_Set ?zs)" for a
      using that by (auto simp: set_new_Set)
    have head: "\<forall>b \<in> set (new_Set ?zs). first_index xs x < first_index xs b"
    proof
      fix b
      assume "b \<in> set (new_Set ?zs)"
      then have "b \<noteq> x" using mem by blast
      then show "first_index xs x < first_index xs b"
        unfolding Cons by (simp add: first_index_Cons)
    qed
    have tail: "sorted_wrt (\<lambda>a b. first_index xs a < first_index xs b) (new_Set ?zs)"
    proof (rule sorted_wrt_mono_rel [OF _ IH])
      fix a b
      assume a: "a \<in> set (new_Set ?zs)" and b: "b \<in> set (new_Set ?zs)"
        and lt: "first_index ?zs a < first_index ?zs b"
      have "first_index ys a < first_index ys b"
        using first_index_filter [of a x b ys] mem [OF a] mem [OF b] lt by simp
      then show "first_index xs a < first_index xs b"
        using Cons mem [OF a] mem [OF b] by (simp add: first_index_Cons)
    qed
    show ?thesis using head tail Cons by (simp add: new_Set_Cons)
  qed
qed


section \<open>The matcher of regular expressions\<close>

lemma ahead_refl: "ahead p p"
  by (simp add: ahead_def)

lemma ahead_trans: "ahead p q \<Longrightarrow> ahead q r \<Longrightarrow> ahead p r"
  unfolding ahead_def
proof -
  assume "\<exists>m. snd p = m @ snd q \<and> fst q = rev m @ fst p"
    and "\<exists>m. snd q = m @ snd r \<and> fst r = rev m @ fst q"
  then obtain m n where "snd p = m @ snd q" "fst q = rev m @ fst p"
    "snd q = n @ snd r" "fst r = rev n @ fst q" by blast
  then have "snd p = (m @ n) @ snd r \<and> fst r = rev (m @ n) @ fst p" by simp
  then show "\<exists>m. snd p = m @ snd r \<and> fst r = rev m @ fst p" by blast
qed

lemma ahead_step: "ahead (x # b, xs) q \<Longrightarrow> ahead (b, x # xs) q"
  by (rule ahead_trans [of _ "(x # b, xs)"]) (simp_all add: ahead_def)

lemma lit_match_ahead: "lit_match s b a = Some q \<Longrightarrow> ahead (b, a) q"
proof (induction s b a rule: lit_match.induct)
  case (1 b a)
  then show ?case by (simp add: ahead_def)
next
  case (2 c cs b)
  then show ?case by simp
next
  case (3 c cs b x xs)
  then show ?case by (auto split: if_splits intro: ahead_step)
qed

lemma rep_ahead: "q \<in> set (rep cs lo hi b a) \<Longrightarrow> ahead (b, a) q"
proof (induction a arbitrary: lo hi b)
  case Nil
  then show ?case by (auto simp: ahead_def split: if_splits)
next
  case (Cons x xs)
  from Cons.prems consider
    (more) "q \<in> set (rep cs (lo - 1) (map_option (\<lambda>h. h - 1) hi) (x # b) xs)"
    | (stop) "q = (b, x # xs)"
    by (auto split: if_splits)
  then show ?case
  proof cases
    case more
    then show ?thesis using Cons.IH ahead_step by blast
  next
    case stop
    then show ?thesis by (simp add: ahead_refl)
  qed
qed

lemma ends_ahead: "q \<in> set (ends r p) \<Longrightarrow> ahead p q"
proof (induction r arbitrary: p q)
  case Eps
  then show ?case by (simp add: ahead_refl)
next
  case (Lit s)
  then show ?case using lit_match_ahead [of s "fst p" "snd p" q]
    by (auto split: option.splits)
next
  case WordB
  then show ?case by (auto simp: ahead_refl split: if_splits)
next
  case (Seq r1 r2)
  from Seq.prems obtain m where "m \<in> set (ends r1 p)" "q \<in> set (ends r2 m)" by auto
  then show ?case using Seq.IH ahead_trans by blast
next
  case (Alt r1 r2)
  then have "q \<in> set (ends r1 p) \<or> q \<in> set (ends r2 p)" by simp
  then show ?case using Alt.IH by blast
next
  case (Opt r)
  then have "q \<in> set (ends r p) \<or> q = p" by auto
  then show ?case using Opt.IH ahead_refl by blast
next
  case (Rep cs lo hi)
  then show ?case using rep_ahead [of q cs lo hi "fst p" "snd p"] by simp
qed

lemma exec_from_sound:
  "exec_from r b a = Some (s, e) \<Longrightarrow> ahead (b, a) s \<and> e \<in> set (ends r s)"
proof (induction a arbitrary: b)
  case Nil
  then show ?case by (auto simp: ahead_refl split: list.splits)
next
  case (Cons x xs)
  show ?case
  proof (cases "ends r (b, x # xs)")
    case Nil
    then have "exec_from r (x # b) xs = Some (s, e)" using Cons.prems by simp
    then have "ahead (x # b, xs) s \<and> e \<in> set (ends r s)" by (rule Cons.IH)
    then show ?thesis using ahead_step by blast
  next
    case (Cons q qs)
    then show ?thesis using Cons.prems by (auto simp: ahead_refl)
  qed
qed

lemma rx_exec_sound:
  assumes "rx_exec r text = Some (s, e)"
  shows "ahead ([], text) s \<and> e \<in> set (ends r s) \<and> ahead s e"
  using exec_from_sound [of r "[]" "text" s e] assms ends_ahead [of e r s]
  by (simp add: rx_exec_def)

lemma rx_match_sublist:
  assumes "rx_match r text = Some m"
  shows "sublist m text"
proof -
  from assms obtain s e where ex: "rx_exec r text = Some (s, e)"
    and m: "m = take (length (snd s) - length (snd e)) (snd s)"
    by (auto simp: rx_match_def split: option.splits)
  from rx_exec_sound [OF ex] obtain u v where u: "text = u @ snd s" and v: "snd s = v @ snd e"
    by (auto simp: ahead_def)
  have "m = v" using m v by simp
  then have "text = u @ m @ snd e" using u v by simp
  then show ?thesis unfolding sublist_def by blast
qed

lemma opens_ends: "opens r \<Longrightarrow> ends r p \<noteq> [] \<Longrightarrow> wordb p"
proof (induction r arbitrary: p)
  case WordB
  then show ?case by (simp split: if_splits)
next
  case (Seq r1 r2)
  from Seq.prems have "ends r1 p \<noteq> []" by auto
  moreover have "opens r1" using Seq.prems by simp
  ultimately show ?case by (rule Seq.IH(1) [rotated])
qed simp_all

lemma closes_ends: "closes r \<Longrightarrow> q \<in> set (ends r p) \<Longrightarrow> wordb q"
proof (induction r arbitrary: p)
  case WordB
  then show ?case by (simp split: if_splits)
next
  case (Seq r1 r2)
  from Seq.prems obtain m where "q \<in> set (ends r2 m)" by auto
  moreover have "closes r2" using Seq.prems by simp
  ultimately show ?case by (rule Seq.IH(2) [rotated])
qed simp_all

lemma rx_exec_boundaries:
  assumes "rx_exec r text = Some (s, e)"
  shows "(opens r \<longrightarrow> wordb s) \<and> (closes r \<longrightarrow> wordb e)"
proof -
  from rx_exec_sound [OF assms] have e: "e \<in> set (ends r s)" by simp
  then have "ends r s \<noteq> []" by auto
  then show ?thesis using e opens_ends closes_ends by blast
qed

lemma opens_RESTRICTION_PATTERNS: "list_all opens RESTRICTION_PATTERNS"
  by (simp add: RESTRICTION_PATTERNS_def)

lemma closes_RESTRICTION_PATTERNS:
  "filter (\<lambda>p. \<not> closes p) RESTRICTION_PATTERNS = [RESTRICTION_PATTERNS ! 6, RESTRICTION_PATTERNS ! 18]"
  by (simp add: RESTRICTION_PATTERNS_def)


section \<open>Facts about the matcher\<close>

lemma collect_matches_eq:
  "collect_matches ps txt acc = acc @ map toLowerCase (List.map_filter (\<lambda>p. rx_match p txt) ps)"
  by (induction ps arbitrary: acc) (auto split: option.splits)

lemma indexOf_from_sublist: "indexOf_from i s k = Some j \<Longrightarrow> sublist k s"
proof (induction s arbitrary: i)
  case Nil
  then show ?case by (simp split: if_splits)
next
  case (Cons x xs)
  show ?case
  proof (cases "prefix k (x # xs)")
    case True
    then show ?thesis by (rule prefix_imp_sublist)
  next
    case False
    then have "indexOf_from (Suc i) xs k = Some j" using Cons.prems by simp
    then have "sublist k xs" by (rule Cons.IH)
    then show ?thesis by (simp add: sublist_Cons_right)
  qed
qed

lemma str_includes_sublist: "str_includes s k \<Longrightarrow> sublist k s"
  using indexOf_from_sublist [of 0 s k] by (auto simp: str_includes_def indexOf_def)

lemma set_collect_keywords:
  "set (collect_keywords ks lower acc) = set acc \<union> {k \<in> set ks. str_includes lower k}"
  by (induction ks arbitrary: acc) auto

lemma keywords_lower: "list_all (\<lambda>k. toLowerCase k = k) RESTRICTION_KEYWORDS"
  by (simp add: RESTRICTION_KEYWORDS_def toLowerCase_def chr_ev)

lemma scan_cases:
  "scan ex rs txt = (if txt = [] \<or> list_ex (\<lambda>p. rx_test p txt) ex then []
     else new_Set (map toLowerCase (List.map_filter (\<lambda>p. rx_match p txt) rs)))"
  by (simp add: scan_def collect_matches_eq)

lemma no_match_empty: "List.map_filter (\<lambda>p. rx_match p []) RESTRICTION_PATTERNS = []"
  by (simp add: RESTRICTION_PATTERNS_def rx_ev)

lemma scan_result_elem:
  assumes "x \<in> set (scan ex rs txt)"
  shows "toLowerCase x = x \<and> sublist x (toLowerCase txt)"
proof -
  from assms have "x \<in> set (map toLowerCase (List.map_filter (\<lambda>p. rx_match p txt) rs))"
    by (auto simp: scan_cases set_new_Set split: if_splits)
  then obtain m p where "rx_match p txt = Some m" and x: "x = toLowerCase m"
    by (auto simp: List.map_filter_def)
  then have "sublist m txt" using rx_match_sublist by blast
  then show ?thesis using x sublist_toLowerCase toLowerCase_idem by simp
qed

lemma scan_kw_result_elem:
  assumes "x \<in> set (scanForRestrictions_kw txt)"
  shows "toLowerCase x = x \<and> sublist x (toLowerCase txt)"
proof -
  from assms have "x \<in> set RESTRICTION_KEYWORDS \<and> str_includes (toLowerCase txt) x"
    by (auto simp: scanForRestrictions_kw_def set_new_Set set_collect_keywords split: if_splits)
  then show ?thesis using keywords_lower str_includes_sublist by (auto simp: list_all_iff)
qed

lemma sublist_indexOf_from: "sublist k s \<Longrightarrow> \<exists>j. indexOf_from i s k = Some j"
proof (induction s arbitrary: i)
  case Nil
  then show ?case by simp
next
  case (Cons x xs)
  then show ?case by (auto simp: sublist_Cons_right)
qed

lemma str_includes_iff: "str_includes s k \<longleftrightarrow> sublist k s"
  using sublist_indexOf_from [of k s 0] str_includes_sublist [of s k]
  by (auto simp: str_includes_def indexOf_def)

lemma set_scan_kw:
  "set (scanForRestrictions_kw txt) =
     (if txt = [] then {} else {k \<in> set RESTRICTION_KEYWORDS. sublist k (toLowerCase txt)})"
  by (simp add: scanForRestrictions_kw_def set_new_Set set_collect_keywords str_includes_iff)

lemmas kw_ev = scanForRestrictions_kw_def RESTRICTION_KEYWORDS_def str_includes_def indexOf_def
  new_Set_def set_add_def toLowerCase_def

lemma ev_responsibility: "scanForRestrictions ''responsibility'' = []"
  by (simp add: scan_ev rx_ev chr_ev)

lemma ev_kw_responsibility: "scanForRestrictions_kw ''responsibility'' = []"
  by (simp add: kw_ev chr_ev)

lemma ev_kw_casino: "scanForRestrictions_kw ''casino sponsorship'' = [''no sponsorship'']"
  by (simp add: kw_ev chr_ev)

lemma ev_h1b: "scanForRestrictions ''No H1B sponsors'' = [''no h1b sponsor'']"
  by (simp add: scan_ev rx_ev chr_ev)

lemma ev_h1b_exec:
  "rx_exec (RESTRICTION_PATTERNS ! 6) ''No H1B sponsors'' =
     Some (([], ''No H1B sponsors''), (''rosnops B1H oN'', ''s''))"
  by (simp add: RESTRICTION_PATTERNS_def rx_ev chr_ev)

lemma ev_visa_excl: "\<not> list_ex (\<lambda>p. rx_test p ''no visa sponsorship'') EXCLUSION_PATTERNS"
  by (simp add: EXCLUSION_PATTERNS_def rx_ev chr_ev)

lemma ev_visa_phrases:
  "matched_phrases ''no visa sponsorship'' = [''no visa sponsorship'', ''no visa sponsor'']"
  by (simp add: matched_phrases_def RESTRICTION_PATTERNS_def toLowerCase_def rx_ev chr_ev)

lemma ev_veto_excl: "list_ex (\<lambda>p. rx_test p ''no sponsorship needed'') EXCLUSION_PATTERNS"
  by (simp add: EXCLUSION_PATTERNS_def rx_ev chr_ev)

lemma ev_veto_match:
  "rx_match (RESTRICTION_PATTERNS ! 0) ''no sponsorship needed'' = Some ''no sponsorship''"
  by (simp add: RESTRICTION_PATTERNS_def rx_ev chr_ev)

lemma ev_first_exec:
  "rx_exec (RESTRICTION_PATTERNS ! 0) ''no sponsorship'' =
     Some (([], ''no sponsorship''), (''pihsrosnops on'', []))"
  by (simp add: RESTRICTION_PATTERNS_def rx_ev chr_ev)


section \<open>Properties of the matcher\<close>

text \<open>
  Claim C1 (veto precedence). If any exclusion pattern matches somewhere in the text,
  \<open>scanForRestrictions\<close> returns the empty list, whatever the restriction patterns would
  match; the same holds for any two pattern lists.
\<close>

theorem veto_precedence:
  "(list_ex (\<lambda>p. rx_test p txt) EXCLUSION_PATTERNS \<longrightarrow> scanForRestrictions txt = []) \<and>
   (list_ex (\<lambda>p. rx_test p txt) ex \<longrightarrow> scan ex rs txt = [])"
  by (simp add: scanForRestrictions_def scan_def)

text \<open>The text \<open>no sponsorship needed\<close> has an exclusion match and a restriction match
  (\<open>no sponsorship\<close>, by the first pattern); the result is empty.\<close>

theorem veto_precedence_witness:
  "list_ex (\<lambda>p. rx_test p ''no sponsorship needed'') EXCLUSION_PATTERNS \<and>
   rx_match (RESTRICTION_PATTERNS ! 0) ''no sponsorship needed'' = Some ''no sponsorship'' \<and>
   scanForRestrictions ''no sponsorship needed'' = []"
  using veto_precedence [of "''no sponsorship needed''"] ev_veto_excl ev_veto_match
  by blast

text \<open>
  Claim C2 as stated, that a matcher only matches whole words and never inside another
  word, fails. The keyword variant reports \<open>no sponsorship\<close> for the text
  \<open>casino sponsorship\<close>, where \<open>no\<close> is the end of \<open>casino\<close>. The pattern variant reports
  \<open>no h1b sponsor\<close> for \<open>No H1B sponsors\<close>: the match of the seventh pattern ends between
  \<open>sponsor\<close> and \<open>s\<close>, which is not a word boundary.
\<close>

theorem word_boundaries_counterexample:
  "scanForRestrictions_kw ''casino sponsorship'' = [''no sponsorship''] \<and>
   scanForRestrictions ''No H1B sponsors'' = [''no h1b sponsor''] \<and>
   rx_exec (RESTRICTION_PATTERNS ! 6) ''No H1B sponsors'' =
     Some (([], ''No H1B sponsors''), (''rosnops B1H oN'', ''s'')) \<and>
   \<not> wordb (''rosnops B1H oN'', ''s'')"
  using ev_kw_casino ev_h1b ev_h1b_exec by (simp add: chr_ev)

text \<open>
  Claim C2, amended. Every match of a restriction pattern starts at a word boundary, and
  it ends at one when the pattern ends with \<open>\b\<close>; all patterns do but the seventh
  (\<open>no (h-?1b|h1b|visa) sponsor\<close>) and the nineteenth (\<open>applicants? must be ... citizen\<close>).
  The keyword variant reports exactly the keywords contained in the lower-cased text. For
  the text \<open>responsibility\<close> both variants return the empty list.
\<close>

theorem word_boundaries:
  "(\<forall>p \<in> set RESTRICTION_PATTERNS. \<forall>txt s e.
      rx_exec p txt = Some (s, e) \<longrightarrow> wordb s \<and> (closes p \<longrightarrow> wordb e)) \<and>
   filter (\<lambda>p. \<not> closes p) RESTRICTION_PATTERNS =
     [RESTRICTION_PATTERNS ! 6, RESTRICTION_PATTERNS ! 18] \<and>
   (\<forall>txt. set (scanForRestrictions_kw txt) =
      (if txt = [] then {} else {k \<in> set RESTRICTION_KEYWORDS. sublist k (toLowerCase txt)})) \<and>
   scanForRestrictions ''responsibility'' = [] \<and>
   scanForRestrictions_kw ''responsibility'' = []"
proof -
  have "wordb s \<and> (closes p \<longrightarrow> wordb e)"
    if "p \<in> set RESTRICTION_PATTERNS" and "rx_exec p page = Some (s, e)" for p page s e
  proof -
    have "opens p" using opens_RESTRICTION_PATTERNS that(1) by (simp add: list_all_iff)
    then show ?thesis using rx_exec_boundaries [OF that(2)] by simp
  qed
  then show ?thesis
    using closes_RESTRICTION_PATTERNS set_scan_kw ev_responsibility ev_kw_responsibility
    by blast
qed

text \<open>The first pattern on \<open>no sponsorship\<close>: the match starts and ends at a word
  boundary.\<close>

theorem word_boundaries_witness:
  "RESTRICTION_PATTERNS ! 0 \<in> set RESTRICTION_PATTERNS \<and>
   rx_exec (RESTRICTION_PATTERNS ! 0) ''no sponsorship'' =
     Some (([], ''no sponsorship''), (''pihsrosnops on'', [])) \<and>
   closes (RESTRICTION_PATTERNS ! 0) \<and>
   wordb ([], ''no sponsorship'') \<and> wordb (''pihsrosnops on'', [])"
proof -
  have m: "RESTRICTION_PATTERNS ! 0 \<in> set RESTRICTION_PATTERNS"
    by (simp add: RESTRICTION_PATTERNS_def)
  have c: "closes (RESTRICTION_PATTERNS ! 0)"
    by (simp add: RESTRICTION_PATTERNS_def)
  show ?thesis using word_boundaries m c ev_first_exec by blast
qed

text \<open>
  Claim C3 (no duplicates, order of the matchers). When no exclusion pattern matches, the
  result has no duplicate, contains exactly the phrases matched by the restriction
  patterns, and lists them by the position of the first pattern that produced each.
\<close>

theorem dedup_order:
  assumes "\<not> list_ex (\<lambda>p. rx_test p txt) EXCLUSION_PATTERNS"
  shows "distinct (scanForRestrictions txt) \<and>
         set (scanForRestrictions txt) = set (matched_phrases txt) \<and>
         sorted_wrt (\<lambda>a b. first_index (matched_phrases txt) a < first_index (matched_phrases txt) b)
           (scanForRestrictions txt)"
proof -
  have "scanForRestrictions txt = new_Set (matched_phrases txt)"
  proof (cases "txt = []")
    case True
    then show ?thesis
      by (simp add: scanForRestrictions_def scan_cases matched_phrases_def no_match_empty new_Set_Nil)
  next
    case False
    then show ?thesis using assms
      by (simp add: scanForRestrictions_def scan_cases matched_phrases_def)
  qed
  then show ?thesis
    by (simp add: distinct_new_Set set_new_Set new_Set_first_index)
qed

text \<open>The text \<open>no visa sponsorship\<close>: the first and the seventh pattern match, and the
  result lists their phrases in this order.\<close>

theorem dedup_order_witness:
  "\<not> list_ex (\<lambda>p. rx_test p ''no visa sponsorship'') EXCLUSION_PATTERNS \<and>
   matched_phrases ''no visa sponsorship'' = [''no visa sponsorship'', ''no visa sponsor''] \<and>
   distinct (scanForRestrictions ''no visa sponsorship'') \<and>
   set (scanForRestrictions ''no visa sponsorship'') = {''no visa sponsorship'', ''no visa sponsor''} \<and>
   sorted_wrt (\<lambda>a b. first_index [''no visa sponsorship'', ''no visa sponsor''] a
                    < first_index [''no visa sponsorship'', ''no visa sponsor''] b)
     (scanForRestrictions ''no visa sponsorship'')"
  using dedup_order [OF ev_visa_excl] ev_visa_excl ev_visa_phrases by simp

text \<open>
  Claim C4 (empty text). Without a body the extractor returns the empty string, and on
  the empty string \<open>scanForRestrictions\<close> returns the empty list, whatever the pattern lists
  are: no pattern is consulted.
\<close>

theorem empty_text:
  "getPageText None = [] \<and> scanForRestrictions [] = [] \<and> (\<forall>ex rs. scan ex rs [] = [])"
  by (simp add: getPageText_def scanForRestrictions_def scan_def)

text \<open>
  Claim C10 (phrases occur in the text). Every phrase returned, by the pattern variant or
  by the keyword variant, is in lower case and is a contiguous part of the lower-cased
  text.
\<close>

theorem phrases_occur_in_text:
  "(\<forall>x \<in> set (scanForRestrictions txt). toLowerCase x = x \<and> sublist x (toLowerCase txt)) \<and>
   (\<forall>x \<in> set (scanForRestrictions_kw txt). toLowerCase x = x \<and> sublist x (toLowerCase txt))"
  using scan_result_elem scan_kw_result_elem by (simp add: scanForRestrictions_def)

text \<open>The phrases reported for \<open>No H1B sponsors\<close> and for \<open>casino sponsorship\<close>.\<close>

theorem phrases_occur_in_text_witness:
  "''no h1b sponsor'' \<in> set (scanForRestrictions ''No H1B sponsors'') \<and>
   toLowerCase ''no h1b sponsor'' = ''no h1b sponsor'' \<and>
   sublist ''no h1b sponsor'' (toLowerCase ''No H1B sponsors'') \<and>
   ''no sponsorship'' \<in> set (scanForRestrictions_kw ''casino sponsorship'') \<and>
   sublist ''no sponsorship'' (toLowerCase ''casino sponsorship'')"
proof -
  have a: "''no h1b sponsor'' \<in> set (scanForRestrictions ''No H1B sponsors'')"
    by (simp add: ev_h1b)
  have b: "''no sponsorship'' \<in> set (scanForRestrictions_kw ''casino sponsorship'')"
    by (simp add: ev_kw_casino)
  show ?thesis
    using phrases_occur_in_text [of "''No H1B sponsors''"]
      phrases_occur_in_text [of "''casino sponsorship''"] a b by blast
qed


section \<open>Properties of the extractor\<close>

lemma walk_chunks_eq: "walk_chunks nodes chunks = chunks @ surviving_fragments nodes"
  by (induction nodes arbitrary: chunks) (auto simp: surviving_fragments_def Let_def)

lemma acceptNode_iff:
  "acceptNode n \<longleftrightarrow>
     (\<exists>tag. parentElement n = Some tag \<and>
            toLowerCase tag \<notin> {''script'', ''style'', ''noscript''})"
  by (auto simp: acceptNode_def split: option.splits)

text \<open>
  Claim C9 as stated fails at the two thresholds. A primary text of exactly 50 characters
  is not below 50, and yet the fallback is used: the result is the text of the nodes. A
  fragment of exactly 5 characters is not shorter than 5, and yet it is skipped.
\<close>

theorem extractor_fallback_counterexample:
  "length ''We sponsor work visas for every open role. Apply!!'' = 50 \<and>
   getPageText (Some \<lparr>innerText = ''We sponsor work visas for every open role. Apply!!'',
                      textNodes = [\<lparr>parentElement = Some ''P'', textContent = ''Fallback text''\<rparr>]\<rparr>)
     = ''fallback text'' \<and>
   length ''hello'' = 5 \<and>
   getPageText (Some \<lparr>innerText = [],
                      textNodes = [\<lparr>parentElement = Some ''P'', textContent = ''hello''\<rparr>]\<rparr>)
     = []"
  by (simp add: getPageText_def acceptNode_def trim_def toLowerCase_def chr_ev)

text \<open>
  Claim C9, amended. The extractor returns the lower-cased primary text when it is longer
  than 50 characters, and the fallback otherwise: of the text nodes that have a parent
  element other than \<open>script\<close>, \<open>style\<close> and \<open>noscript\<close>, the trimmed contents longer than 5
  characters, joined with single spaces and lower-cased.
\<close>

theorem extractor_fallback:
  "getPageText (Some b) =
     (if 50 < length (innerText b) then toLowerCase (innerText b)
      else toLowerCase (join '' '' (surviving_fragments (textNodes b)))) \<and>
   (\<forall>n. acceptNode n \<longleftrightarrow>
      (\<exists>tag. parentElement n = Some tag \<and>
             toLowerCase tag \<notin> {''script'', ''style'', ''noscript''}))"
proof -
  have "walk_chunks (textNodes b) [] = surviving_fragments (textNodes b)"
    by (simp add: walk_chunks_eq)
  then have "getPageText (Some b) =
     (if 50 < length (innerText b) then toLowerCase (innerText b)
      else toLowerCase (join '' '' (surviving_fragments (textNodes b))))"
    by (auto simp: getPageText_def Let_def)
  then show ?thesis using acceptNode_iff by blast
qed

text \<open>A short primary text and four text nodes: the script node and the fragment
  \<open>here.\<close> are skipped.\<close>

theorem extractor_fallback_witness:
  "getPageText (Some \<lparr>innerText = ''short'',
      textNodes = [\<lparr>parentElement = Some ''SCRIPT'', textContent = ''var x = 1;''\<rparr>,
                   \<lparr>parentElement = Some ''P'', textContent = ''  No Visa  ''\<rparr>,
                   \<lparr>parentElement = Some ''P'', textContent = ''Sponsorship''\<rparr>,
                   \<lparr>parentElement = Some ''B'', textContent = ''here.''\<rparr>]\<rparr>)
     = ''no visa sponsorship''"
  using extractor_fallback [of "\<lparr>innerText = ''short'',
      textNodes = [\<lparr>parentElement = Some ''SCRIPT'', textContent = ''var x = 1;''\<rparr>,
                   \<lparr>parentElement = Some ''P'', textContent = ''  No Visa  ''\<rparr>,
                   \<lparr>parentElement = Some ''P'', textContent = ''Sponsorship''\<rparr>,
                   \<lparr>parentElement = Some ''B'', textContent = ''here.''\<rparr>]\<rparr>"]
  by (simp add: surviving_fragments_def acceptNode_def trim_def toLowerCase_def chr_ev)


section \<open>Facts about the scheduler\<close>

lemma removeBanner_facts:
  "calls (removeBanner w) = calls w @ [CallRemoveBanner, CallRemoveHighlights]"
  "lastScannedText (removeBanner w) = lastScannedText w"
  "\<not> banner_visible (removeBanner w)"
  "highlights (removeBanner w) = []"
  "isExtensionEnabled (removeBanner w) = isExtensionEnabled w"
  "document (removeBanner w) = document w"
  "timers (removeBanner w) = timers w"
  "scanTimeout (removeBanner w) = scanTimeout w"
  "now (removeBanner w) = now w"
  "next_handle (removeBanner w) = next_handle w"
  by (simp_all add: removeBanner_def removeHighlights_def log_call_def banner_visible_def Let_def
      split: option.splits)

lemma showBanner_facts:
  "lastScannedText (showBanner ms w) = lastScannedText w"
  "isExtensionEnabled (showBanner ms w) = isExtensionEnabled w"
  "highlightMatches (showBanner ms w) = highlightMatches w"
  "document (showBanner ms w) = document w"
  "timers (showBanner ms w) = timers w"
  "scanTimeout (showBanner ms w) = scanTimeout w"
  "now (showBanner ms w) = now w"
  "next_handle (showBanner ms w) = next_handle w"
  "calls (showBanner ms w) = calls w @ [CallShowBanner ms]"
  "banner_visible (showBanner ms w)"
  by (simp_all add: showBanner_def log_call_def banner_visible_def Let_def)

lemma highlightMatchedText_facts:
  "lastScannedText (highlightMatchedText ms w) = lastScannedText w"
  "isExtensionEnabled (highlightMatchedText ms w) = isExtensionEnabled w"
  "document (highlightMatchedText ms w) = document w"
  "timers (highlightMatchedText ms w) = timers w"
  "scanTimeout (highlightMatchedText ms w) = scanTimeout w"
  "now (highlightMatchedText ms w) = now w"
  "next_handle (highlightMatchedText ms w) = next_handle w"
  "calls (highlightMatchedText ms w) = calls w @ [CallHighlightMatchedText ms, CallRemoveHighlights]"
  "banner_visible (highlightMatchedText ms w) = banner_visible w"
  by (simp_all add: highlightMatchedText_def removeHighlights_def log_call_def banner_visible_def
      Let_def split: list.splits option.splits)

lemma performScan_disabled:
  "\<not> isExtensionEnabled w \<Longrightarrow> performScan w = removeBanner (log_call CallPerformScan w)"
  by (simp add: performScan_def log_call_def Let_def)




lemma performScan_timers:
  "timers (performScan w) = timers w \<and> now (performScan w) = now w \<and>
   scanTimeout (performScan w) = scanTimeout w \<and> next_handle (performScan w) = next_handle w"
  by (simp add: performScan_def log_call_def Let_def removeBanner_facts showBanner_facts
      highlightMatchedText_facts)


lemma debouncedScan_fields:
  "calls (debouncedScan w) = calls w"
  "now (debouncedScan w) = now w"
  "lastScannedText (debouncedScan w) = lastScannedText w"
  "isExtensionEnabled (debouncedScan w) = isExtensionEnabled w"
  "highlightMatches (debouncedScan w) = highlightMatches w"
  "document (debouncedScan w) = document w"
  "banner_visible (debouncedScan w) = banner_visible w"
  "next_handle (debouncedScan w) = Suc (next_handle w)"
  "scanTimeout (debouncedScan w) = Some (Suc (next_handle w))"
  by (simp_all add: debouncedScan_def setTimeout_def clearTimeout_def banner_visible_def Let_def
      split: option.splits)

lemma filter_id_conv: "(\<forall>x \<in> set xs. P x) \<Longrightarrow> filter P xs = xs"
  by (induction xs) auto

lemma debouncedScan_timers:
  assumes "tracked w"
  shows "timers (debouncedScan w) =
           filter (\<lambda>u. callback u \<noteq> PerformScan) (timers w) @ [scan_timer w]"
proof (cases "scanTimeout w")
  case None
  then have "\<forall>u \<in> set (timers w). callback u \<noteq> PerformScan"
    using assms by (simp add: tracked_def)
  then have "filter (\<lambda>u. callback u \<noteq> PerformScan) (timers w) = timers w"
    by (rule filter_id_conv)
  then show ?thesis using None
    by (simp add: debouncedScan_def setTimeout_def scan_timer_def Let_def)
next
  case (Some h)
  have eq: "\<forall>u \<in> set (timers w). (callback u \<noteq> PerformScan) = (handle u \<noteq> h)"
    using assms Some by (auto simp: tracked_def)
  show ?thesis
  proof (cases "h = 0")
    case True
    have "\<forall>u \<in> set (timers w). handle u \<noteq> h"
      using assms True by (auto simp: tracked_def)
    then have "\<forall>u \<in> set (timers w). callback u \<noteq> PerformScan" using eq by simp
    then have "filter (\<lambda>u. callback u \<noteq> PerformScan) (timers w) = timers w"
      by (rule filter_id_conv)
    then show ?thesis using Some True
      by (simp add: debouncedScan_def setTimeout_def scan_timer_def Let_def)
  next
    case False
    have "filter (\<lambda>u. handle u \<noteq> h) (timers w) = filter (\<lambda>u. callback u \<noteq> PerformScan) (timers w)"
      using eq by (auto intro: filter_cong)
    then show ?thesis using Some False
      by (simp add: debouncedScan_def setTimeout_def clearTimeout_def scan_timer_def Let_def)
  qed
qed

lemma debouncedScan_tracked:
  assumes "tracked w"
  shows "tracked (debouncedScan w)"
proof -
  have t: "timers (debouncedScan w) =
           filter (\<lambda>u. callback u \<noteq> PerformScan) (timers w) @ [scan_timer w]"
    using assms by (rule debouncedScan_timers)
  have h: "\<forall>u \<in> set (timers w). 0 < handle u \<and> handle u \<le> next_handle w"
    and d: "distinct (map handle (timers w))"
    using assms by (simp_all add: tracked_def)
  have "distinct (map handle (filter (\<lambda>u. callback u \<noteq> PerformScan) (timers w)))"
    using d by (rule distinct_map_filter)
  moreover have "\<forall>u \<in> set (timers w). handle u \<noteq> Suc (next_handle w)"
    using h by auto
  ultimately have "distinct (map handle (timers (debouncedScan w)))"
    by (auto simp: t scan_timer_def)
  moreover have "\<forall>u \<in> set (timers (debouncedScan w)).
      0 < handle u \<and> handle u \<le> next_handle (debouncedScan w)"
    using h by (auto simp: t scan_timer_def debouncedScan_fields)
  moreover have "\<forall>u \<in> set (timers (debouncedScan w)).
      callback u = PerformScan \<longleftrightarrow> scanTimeout (debouncedScan w) = Some (handle u)"
    using h by (auto simp: t scan_timer_def debouncedScan_fields)
  ultimately show ?thesis by (simp add: tracked_def)
qed

lemma pending_scans_debouncedScan:
  "tracked w \<Longrightarrow> pending_scans (debouncedScan w) = [scan_timer w]"
  by (simp add: pending_scans_def debouncedScan_timers scan_timer_def)

lemma others_debouncedScan:
  "tracked w \<Longrightarrow>
   filter (\<lambda>u. callback u \<noteq> PerformScan) (timers (debouncedScan w)) =
   filter (\<lambda>u. callback u \<noteq> PerformScan) (timers w)"
  by (simp add: debouncedScan_timers scan_timer_def)





lemma removeHighlights_facts:
  "calls (removeHighlights w) = calls w @ [CallRemoveHighlights]"
  "banner_visible (removeHighlights w) = banner_visible w"
  "isExtensionEnabled (removeHighlights w) = isExtensionEnabled w"
  by (simp_all add: removeHighlights_def log_call_def banner_visible_def)

lemma highlightMatches_update_facts:
  "isExtensionEnabled (w\<lparr>highlightMatches := x\<rparr>) = isExtensionEnabled w"
  "banner_visible (w\<lparr>highlightMatches := x\<rparr>) = banner_visible w"
  "calls (w\<lparr>highlightMatches := x\<rparr>) = calls w"
  by (simp_all add: banner_visible_def)

lemma onStorageChange_disable:
  assumes "area = ''sync'' \<or> area = ''local''"
    and "changes STORAGE_KEY_ENABLED = Some (Some False)"
  shows "\<not> isExtensionEnabled (onStorageChange changes area w) \<and>
         \<not> banner_visible (onStorageChange changes area w) \<and>
         CallRemoveBanner \<in> set (calls (onStorageChange changes area w))"
proof -
  let ?w1 = "removeBanner (w\<lparr>isExtensionEnabled := False\<rparr>)"
  have w1: "\<not> isExtensionEnabled ?w1" "\<not> banner_visible ?w1"
    "CallRemoveBanner \<in> set (calls ?w1)"
    by (simp_all add: removeBanner_facts)
  have unfold: "onStorageChange changes area w =
     (case changes STORAGE_KEY_HIGHLIGHT of
        None \<Rightarrow> ?w1
      | Some newValue \<Rightarrow>
          (if newValue = Some True then debouncedScan (?w1\<lparr>highlightMatches := True\<rparr>)
           else removeHighlights (?w1\<lparr>highlightMatches := False\<rparr>)))"
  proof -
    from assms(1) have c: "(area \<noteq> ''sync'' \<and> area \<noteq> ''local'') = False" by blast
    have "onStorageChange changes area w =
       (let w1 = (case changes STORAGE_KEY_ENABLED of
                     None \<Rightarrow> w
                   | Some newValue \<Rightarrow>
                       (let w' = w\<lparr>isExtensionEnabled := (newValue \<noteq> Some False)\<rparr>
                        in if \<not> isExtensionEnabled w' then removeBanner w' else debouncedScan w'))
         in case changes STORAGE_KEY_HIGHLIGHT of
              None \<Rightarrow> w1
            | Some newValue \<Rightarrow>
                (let w' = w1\<lparr>highlightMatches := (newValue = Some True)\<rparr>
                 in if highlightMatches w' then debouncedScan w' else removeHighlights w'))"
      by (simp only: onStorageChange_def c if_False)
    then show ?thesis using assms(2) by (simp add: Let_def split: option.splits)
  qed
  show ?thesis
  proof (cases "changes STORAGE_KEY_HIGHLIGHT")
    case None
    then have "onStorageChange changes area w = ?w1"
      by (simp add: unfold)
    then show ?thesis using w1 by simp
  next
    case (Some newValue)
    show ?thesis
    proof (cases "newValue = Some True")
      case True
      then have "onStorageChange changes area w = debouncedScan (?w1\<lparr>highlightMatches := True\<rparr>)"
        using Some by (simp add: unfold)
      then show ?thesis using w1
        by (simp add: debouncedScan_fields highlightMatches_update_facts)
    next
      case False
      then have "onStorageChange changes area w = removeHighlights (?w1\<lparr>highlightMatches := False\<rparr>)"
        using Some by (simp add: unfold)
      then show ?thesis using w1
        by (simp add: removeHighlights_facts highlightMatches_update_facts)
    qed
  qed
qed


section \<open>Properties of the scheduler\<close>

text \<open>
  Claim C5 (disabled pipeline). When \<open>performScan\<close> runs with \<open>isExtensionEnabled\<close> false,
  the only calls made are those of \<open>removeBanner\<close>: the extractor, the matcher and
  \<open>showBanner\<close> are not called; afterwards no banner is visible and \<open>lastScannedText\<close> is
  what it was. A storage change in the area \<open>sync\<close> or \<open>local\<close> that sets the enabled flag
  to false calls \<open>removeBanner\<close> at once, and no banner is visible afterwards.
\<close>

theorem disabled_pipeline:
  "(\<not> isExtensionEnabled w \<longrightarrow>
      calls (performScan w) = calls w @ [CallPerformScan, CallRemoveBanner, CallRemoveHighlights] \<and>
      \<not> banner_visible (performScan w) \<and>
      lastScannedText (performScan w) = lastScannedText w) \<and>
   ((area = ''sync'' \<or> area = ''local'') \<and> changes STORAGE_KEY_ENABLED = Some (Some False) \<longrightarrow>
      \<not> isExtensionEnabled (onStorageChange changes area w) \<and>
      \<not> banner_visible (onStorageChange changes area w) \<and>
      CallRemoveBanner \<in> set (calls (onStorageChange changes area w)))"
  using onStorageChange_disable [of area changes w]
  by (auto simp: performScan_disabled removeBanner_facts log_call_def)

text \<open>The world with the banner shown: disabled and scanned, and disabled by a storage
  change.\<close>

theorem disabled_pipeline_witness:
  "banner_visible flagged_world \<and>
   calls (performScan (flagged_world\<lparr>isExtensionEnabled := False\<rparr>)) =
     [CallPerformScan, CallRemoveBanner, CallRemoveHighlights] \<and>
   \<not> banner_visible (performScan (flagged_world\<lparr>isExtensionEnabled := False\<rparr>)) \<and>
   lastScannedText (performScan (flagged_world\<lparr>isExtensionEnabled := False\<rparr>)) = ''no visa sponsorship'' \<and>
   \<not> banner_visible (onStorageChange [STORAGE_KEY_ENABLED \<mapsto> Some False] ''sync'' flagged_world)"
  using disabled_pipeline [of "flagged_world\<lparr>isExtensionEnabled := False\<rparr>" "''sync''"
      "[STORAGE_KEY_ENABLED \<mapsto> Some False]"]
    disabled_pipeline [of flagged_world "''sync''" "[STORAGE_KEY_ENABLED \<mapsto> Some False]"]
  by (simp add: flagged_world_def initial_world_def banner_visible_def)






























lemma init_fields:
  "timers (init result (initial_world doc url)) =
     [\<lparr>handle = 1, due = 500, callback = PerformScan, period = None\<rparr>,
      \<lparr>handle = 2, due = 2000, callback = DebouncedScan, period = None\<rparr>,
      \<lparr>handle = 3, due = 5000, callback = DebouncedScan, period = None\<rparr>,
      \<lparr>handle = 4, due = 1500, callback = UrlPoll, period = Some 1500\<rparr>]"
  "scanTimeout (init result (initial_world doc url)) = Some 1"
  "next_handle (init result (initial_world doc url)) = 4"
  "now (init result (initial_world doc url)) = 0"
  "calls (init result (initial_world doc url)) = []"
  by (cases result; simp add: init_def loadSettings_def debouncedScan_def setTimeout_def
      setInterval_def initial_world_def SCAN_DEBOUNCE_MS_def Let_def split: prod.splits)+

lemma tracked_init: "tracked (init result (initial_world doc url))"
  by (simp add: tracked_def init_fields)



section \<open>The invariant of the timers\<close>

text \<open>The condition \<open>tracked\<close> assumed of the timers holds after \<open>init\<close> and is kept
  by every step, so it holds in every world that the script reaches.\<close>

lemma tracked_same:
  assumes "timers w' = timers w" and "next_handle w' = next_handle w"
    and "scanTimeout w' = scanTimeout w" and "tracked w"
  shows "tracked w'"
  using assms by (simp add: tracked_def)

lemma removeHighlights_timers:
  "timers (removeHighlights w) = timers w" "next_handle (removeHighlights w) = next_handle w"
  "scanTimeout (removeHighlights w) = scanTimeout w"
  by (simp_all add: removeHighlights_def log_call_def)

lemma tracked_performScan: "tracked w \<Longrightarrow> tracked (performScan w)"
  using performScan_timers [of w] by (intro tracked_same [of "performScan w" w]) simp_all

lemma tracked_removeBanner: "tracked w \<Longrightarrow> tracked (removeBanner w)"
  by (rule tracked_same [of _ w]) (simp_all add: removeBanner_facts)

lemma tracked_removeHighlights: "tracked w \<Longrightarrow> tracked (removeHighlights w)"
  by (rule tracked_same [of _ w]) (simp_all add: removeHighlights_timers)

lemma tracked_onUrlPoll: "tracked w \<Longrightarrow> tracked (onUrlPoll w)"
proof (cases "href w \<noteq> lastUrl w")
  case True
  assume "tracked w"
  then have "tracked (w\<lparr>lastUrl := href w, lastScannedText := []\<rparr>)"
    by (simp add: tracked_def)
  then have "tracked (debouncedScan (w\<lparr>lastUrl := href w, lastScannedText := []\<rparr>))"
    by (rule debouncedScan_tracked)
  then show ?thesis using True by (simp add: onUrlPoll_def)
next
  case False
  assume "tracked w"
  then show ?thesis using False by (simp add: onUrlPoll_def)
qed

lemma tracked_run_callback: "tracked w \<Longrightarrow> tracked (run_callback cb w)"
  by (cases cb)
    (simp_all add: run_callback_def tracked_performScan debouncedScan_tracked tracked_onUrlPoll)

lemma tracked_onStorageChange:
  assumes "tracked w"
  shows "tracked (onStorageChange changes area w)"
proof (cases "area \<noteq> ''sync'' \<and> area \<noteq> ''local''")
  case True
  then have "onStorageChange changes area w = w" by (simp add: onStorageChange_def)
  then show ?thesis using assms by simp
next
  case False
  then have c: "(area \<noteq> ''sync'' \<and> area \<noteq> ''local'') = False" by blast
  define w1 where "w1 =
     (case changes STORAGE_KEY_ENABLED of
        None \<Rightarrow> w
      | Some newValue \<Rightarrow>
          (let w' = w\<lparr>isExtensionEnabled := (newValue \<noteq> Some False)\<rparr>
           in if \<not> isExtensionEnabled w' then removeBanner w' else debouncedScan w'))"
  have e: "tracked (w\<lparr>isExtensionEnabled := x\<rparr>)" for x
    using assms by (simp add: tracked_def)
  have a: "tracked w1"
  proof (cases "changes STORAGE_KEY_ENABLED")
    case None
    then show ?thesis using assms by (simp add: w1_def)
  next
    case (Some newValue)
    show ?thesis
    proof (cases "newValue = Some False")
      case True
      then have "w1 = removeBanner (w\<lparr>isExtensionEnabled := False\<rparr>)"
        using Some by (simp add: w1_def)
      then show ?thesis using e by (simp add: tracked_removeBanner)
    next
      case False
      then have "w1 = debouncedScan (w\<lparr>isExtensionEnabled := True\<rparr>)"
        using Some by (simp add: w1_def)
      then show ?thesis using e by (simp add: debouncedScan_tracked)
    qed
  qed
  have h: "tracked (w1\<lparr>highlightMatches := x\<rparr>)" for x
    using a by (simp add: tracked_def)
  have u: "onStorageChange changes area w =
     (case changes STORAGE_KEY_HIGHLIGHT of
        None \<Rightarrow> w1
      | Some newValue \<Rightarrow>
          (let w' = w1\<lparr>highlightMatches := (newValue = Some True)\<rparr>
           in if highlightMatches w' then debouncedScan w' else removeHighlights w'))"
    by (simp only: onStorageChange_def c if_False w1_def Let_def)
  show ?thesis
  proof (cases "changes STORAGE_KEY_HIGHLIGHT")
    case None
    then have "onStorageChange changes area w = w1" by (simp add: u)
    then show ?thesis using a by simp
  next
    case (Some newValue)
    show ?thesis
    proof (cases "newValue = Some True")
      case True
      then have "onStorageChange changes area w = debouncedScan (w1\<lparr>highlightMatches := True\<rparr>)"
        using Some by (simp add: u)
      then show ?thesis using h by (simp add: debouncedScan_tracked)
    next
      case False
      then have "onStorageChange changes area w = removeHighlights (w1\<lparr>highlightMatches := False\<rparr>)"
        using Some by (simp add: u)
      then show ?thesis using h by (simp add: tracked_removeHighlights)
    qed
  qed
qed

lemma tracked_handle_event:
  assumes "tracked w"
  shows "tracked (handle_event ev w)"
proof (cases ev)
  case (Mutations ms)
  then show ?thesis using assms
    by (simp add: handle_event_def onMutations_def debouncedScan_tracked)
next
  case Popstate
  have "tracked (w\<lparr>lastScannedText := []\<rparr>)" using assms by (simp add: tracked_def)
  then have "tracked (debouncedScan (w\<lparr>lastScannedText := []\<rparr>))" by (rule debouncedScan_tracked)
  then show ?thesis using Popstate by (simp add: handle_event_def onPopstate_def)
next
  case (StorageChange c a)
  then show ?thesis using assms by (simp add: handle_event_def tracked_onStorageChange)
next
  case (SetDocument d)
  have "tracked (w\<lparr>document := d\<rparr>)" using assms by (simp add: tracked_def)
  then show ?thesis using SetDocument by (simp add: handle_event_def)
next
  case (SetHref u)
  have "tracked (w\<lparr>href := u\<rparr>)" using assms by (simp add: tracked_def)
  then show ?thesis using SetHref by (simp add: handle_event_def)
qed

lemma earliest_mem: "earliest ts = Some t \<Longrightarrow> t \<in> set ts"
  by (induction ts arbitrary: t) (auto split: option.splits if_splits)

lemma tracked_fire:
  assumes "tracked w" and "fire w = Some w'"
  shows "tracked w'"
proof (cases "earliest (timers w)")
  case None
  then show ?thesis using assms(2) by (simp add: fire_def)
next
  case (Some t)
  define others where "others = filter (\<lambda>u. handle u \<noteq> handle t) (timers w)"
  define again where
    "again = (case period t of None \<Rightarrow> [] | Some p \<Rightarrow> [t\<lparr>due := max (now w) (due t) + p\<rparr>])"
  define v where "v = w\<lparr>now := max (now w) (due t), timers := others @ again\<rparr>"
  have w': "w' = run_callback (callback t) v"
    using assms(2) Some by (simp add: fire_def Let_def v_def others_def again_def)
  have mem: "t \<in> set (timers w)" using Some by (rule earliest_mem)
  have h: "\<forall>u \<in> set (timers w). 0 < handle u \<and> handle u \<le> next_handle w"
    and d: "distinct (map handle (timers w))"
    and s: "\<forall>u \<in> set (timers w). callback u = PerformScan \<longleftrightarrow> scanTimeout w = Some (handle u)"
    using assms(1) by (simp_all add: tracked_def)
  have ag: "handle u = handle t \<and> callback u = callback t" if "u \<in> set again" for u
    using that by (cases "period t") (simp_all add: again_def)
  have ot: "u \<in> set (timers w) \<and> handle u \<noteq> handle t" if "u \<in> set others" for u
    using that by (simp add: others_def)
  have p1: "0 < handle u \<and> handle u \<le> next_handle w" if "u \<in> set (others @ again)" for u
  proof (cases "u \<in> set others")
    case True
    then show ?thesis using ot h by blast
  next
    case False
    then have "u \<in> set again" using that by simp
    then have "handle u = handle t" using ag by blast
    then show ?thesis using h mem by simp
  qed
  have p3: "callback u = PerformScan \<longleftrightarrow> scanTimeout w = Some (handle u)"
    if "u \<in> set (others @ again)" for u
  proof (cases "u \<in> set others")
    case True
    then show ?thesis using ot s by blast
  next
    case False
    then have "u \<in> set again" using that by simp
    then have "handle u = handle t" "callback u = callback t" using ag by blast+
    then show ?thesis using s mem by simp
  qed
  have p2: "distinct (map handle (others @ again))"
  proof -
    have "distinct (map handle others)" unfolding others_def using d by (rule distinct_map_filter)
    moreover have "distinct (map handle again)" by (cases "period t") (simp_all add: again_def)
    moreover have "handle x \<noteq> handle y" if "x \<in> set others" and "y \<in> set again" for x y
      using ot [OF that(1)] ag [OF that(2)] by simp
    then have "set (map handle others) \<inter> set (map handle again) = {}" by auto
    ultimately show ?thesis by simp
  qed
  have "tracked v"
    unfolding tracked_def using p1 p2 p3 by (simp add: v_def)
  then show ?thesis unfolding w' by (rule tracked_run_callback)
qed

lemma tracked_step: "tracked w \<Longrightarrow> step a w = Some w' \<Longrightarrow> tracked w'"
proof (cases a)
  case Fire
  assume "tracked w" and "step a w = Some w'"
  then show ?thesis using Fire tracked_fire by simp
next
  case (At t ev)
  assume tr: "tracked w" and st: "step a w = Some w'"
  have "tracked (w\<lparr>now := t\<rparr>)" using tr by (simp add: tracked_def)
  then have "tracked (handle_event ev (w\<lparr>now := t\<rparr>))" by (rule tracked_handle_event)
  then show ?thesis using st At by (simp split: if_splits)
qed

lemma tracked_exec: "tracked w \<Longrightarrow> exec acts w = Some w' \<Longrightarrow> tracked w'"
proof (induction acts arbitrary: w)
  case Nil
  then show ?case by simp
next
  case (Cons a acts)
  from Cons.prems(2) obtain v where v: "step a w = Some v" "exec acts v = Some w'"
    by (auto split: option.splits)
  have "tracked v" using Cons.prems(1) v(1) by (rule tracked_step)
  then show ?case using v(2) by (rule Cons.IH)
qed

lemma tracked_reachable:
  "exec acts (init result (initial_world doc url)) = Some w \<Longrightarrow> tracked w"
  using tracked_init by (rule tracked_exec)

end
